theory Spec2Isabelle
  imports Main "HOL-Library.Word"
begin

section \<open>A singly linked list of C ints on an explicit heap (list.c)\<close>

subsection \<open>Data model\<close>

text \<open>
  A pointer to a node is an address or NULL; addresses are abstract object identities.
  The C type \<open>int\<close> of the node values is a 32-bit word (the two's complement bit
  pattern). The code only copies node values and compares them for equality.
\<close>

type_synonym addr = nat
type_synonym ptr = "addr option"
type_synonym cint = "32 word"

text \<open>
  Modelled from the spec: \<open>struct ll_node\<close> is declared in \<open>list.h\<close>, which is not among
  the sources. The spec's Node holds one integer value and a reference to the next node
  or none; list.c reads and writes the two fields as \<open>->data\<close> and \<open>->next\<close>.
\<close>

record ll_node =
  data :: cint
  "next" :: ptr

text \<open>
  The memory: the live nodes, and the answers the allocator gives to the coming calls of
  \<open>malloc\<close>, in order (\<open>None\<close> is a failed allocation, and so is an exhausted list).
  \<open>free\<close> takes a node out of the live ones, so that a later access through a stale
  pointer is a fault of the model.
\<close>

record mem =
  nodes :: "addr \<rightharpoonup> ll_node"
  mallocs :: "ptr list"

text \<open>
  What C leaves undefined is a fault: an access through a pointer to no live node, the
  overflow of a signed counter, an array access outside the array or a read of a cell
  never written. A result is a fault or a value; a loop over pointers that may run forever
  (on a cyclic chain) returns an optional result, \<open>None\<close> when it does not return.
\<close>

datatype fault = BadPointer | IntOverflow | BadIndex

type_synonym 'a res = "fault + 'a"

text \<open>An \<open>int\<close> array: each cell is written or still indeterminate (fresh from malloc).\<close>

type_synonym int_array = "cint option list"

definition INT_MAX :: int where
  "INT_MAX = 2147483647"

definition malloc :: "mem \<Rightarrow> ptr \<times> mem" where
  "malloc m = (case mallocs m of
       [] \<Rightarrow> (None, m)
     | r # rs \<Rightarrow> (r, m\<lparr>mallocs := rs\<rparr>))"

definition free :: "mem \<Rightarrow> addr \<Rightarrow> mem res" where
  "free m a = (case nodes m a of
       None \<Rightarrow> Inl BadPointer
     | Some n \<Rightarrow> Inr (m\<lparr>nodes := (nodes m)(a := None)\<rparr>))"

definition array_read :: "int_array \<Rightarrow> int \<Rightarrow> cint res" where
  "array_read arr i =
     (if 0 \<le> i \<and> nat i < length arr
      then (case arr ! nat i of None \<Rightarrow> Inl BadIndex | Some v \<Rightarrow> Inr v)
      else Inl BadIndex)"

subsection \<open>The operations of list.c\<close>

definition ll_head :: "mem \<Rightarrow> ptr \<Rightarrow> ptr" where
  "ll_head m head = head"

partial_function (option) ll_tail_loop :: "mem \<Rightarrow> addr \<Rightarrow> ptr res option" where
  "ll_tail_loop m cur = (case nodes m cur of
       None \<Rightarrow> Some (Inl BadPointer)
     | Some n \<Rightarrow> (case next n of
           None \<Rightarrow> Some (Inr (Some cur))
         | Some nx \<Rightarrow> ll_tail_loop m nx))"

declare ll_tail_loop.simps [code]

definition ll_tail :: "mem \<Rightarrow> ptr \<Rightarrow> ptr res option" where
  "ll_tail m head = (case head of
       None \<Rightarrow> Some (Inr None)
     | Some a \<Rightarrow> ll_tail_loop m a)"

text \<open>\<open>count++\<close> on an \<open>int\<close> that holds \<open>INT_MAX\<close> is undefined in C.\<close>

partial_function (option) ll_size_loop :: "mem \<Rightarrow> ptr \<Rightarrow> int \<Rightarrow> int res option" where
  "ll_size_loop m cur count = (case cur of
       None \<Rightarrow> Some (Inr count)
     | Some a \<Rightarrow>
         if count = INT_MAX then Some (Inl IntOverflow)
         else (case nodes m a of
             None \<Rightarrow> Some (Inl BadPointer)
           | Some n \<Rightarrow> ll_size_loop m (next n) (count + 1)))"

declare ll_size_loop.simps [code]

definition ll_size :: "mem \<Rightarrow> ptr \<Rightarrow> int res option" where
  "ll_size m head = ll_size_loop m head 0"

partial_function (option) ll_find :: "mem \<Rightarrow> ptr \<Rightarrow> cint \<Rightarrow> ptr res option" where
  "ll_find m cur v = (case cur of
       None \<Rightarrow> Some (Inr None)
     | Some a \<Rightarrow> (case nodes m a of
           None \<Rightarrow> Some (Inl BadPointer)
         | Some n \<Rightarrow> if data n = v then Some (Inr (Some a)) else ll_find m (next n) v))"

declare ll_find.simps [code]

text \<open>
  The copying loop of \<open>ll_toarray\<close>: \<open>while (cur && i < n) { arr[i++] = cur->data; cur = cur->next; }\<close>
\<close>

partial_function (option) ll_toarray_loop ::
    "mem \<Rightarrow> ptr \<Rightarrow> int \<Rightarrow> int \<Rightarrow> int_array \<Rightarrow> int_array res option" where
  "ll_toarray_loop m cur i n arr = (case cur of
       None \<Rightarrow> Some (Inr arr)
     | Some a \<Rightarrow>
         if i < n then
           (case nodes m a of
               None \<Rightarrow> Some (Inl BadPointer)
             | Some nd \<Rightarrow>
                 if 0 \<le> i \<and> nat i < length arr
                 then ll_toarray_loop m (next nd) (i + 1) n (arr[nat i := Some (data nd)])
                 else Some (Inl BadIndex))
         else Some (Inr arr))"

declare ll_toarray_loop.simps [code]

text \<open>
  \<open>ll_toarray\<close> returns the array by value (\<open>None\<close> is the NULL pointer) and the memory,
  in which the allocator has answered one call. Which address the allocator gives to the
  array plays no role; only whether the allocation succeeds does.
\<close>

definition ll_toarray :: "mem \<Rightarrow> ptr \<Rightarrow> (int_array option \<times> mem) res option" where
  "ll_toarray m head = (case head of
       None \<Rightarrow> Some (Inr (None, m))
     | Some h \<Rightarrow> (case ll_size m head of
           None \<Rightarrow> None
         | Some (Inl e) \<Rightarrow> Some (Inl e)
         | Some (Inr n) \<Rightarrow>
             if n = 0 then Some (Inr (None, m))
             else (case malloc m of
                 (None, m') \<Rightarrow> Some (Inr (None, m'))
               | (Some b, m') \<Rightarrow>
                   (case ll_toarray_loop m' head 0 n (replicate (nat n) None) of
                       None \<Rightarrow> None
                     | Some (Inl e) \<Rightarrow> Some (Inl e)
                     | Some (Inr arr) \<Rightarrow> Some (Inr (Some arr, m'))))))"

definition ll_create :: "mem \<Rightarrow> cint \<Rightarrow> ptr \<times> mem" where
  "ll_create m d = (case malloc m of
       (None, m') \<Rightarrow> (None, m')
     | (Some a, m') \<Rightarrow> (Some a, m'\<lparr>nodes := (nodes m')(a \<mapsto> \<lparr>data = d, next = None\<rparr>)\<rparr>))"

partial_function (option) ll_destroy :: "mem \<Rightarrow> ptr \<Rightarrow> mem res option" where
  "ll_destroy m cur = (case cur of
       None \<Rightarrow> Some (Inr m)
     | Some a \<Rightarrow> (case nodes m a of
           None \<Rightarrow> Some (Inl BadPointer)
         | Some n \<Rightarrow> (case free m a of
               Inl e \<Rightarrow> Some (Inl e)
             | Inr m' \<Rightarrow> ll_destroy m' (next n))))"

declare ll_destroy.simps [code]

definition set_next :: "mem \<Rightarrow> addr \<Rightarrow> ptr \<Rightarrow> mem res" where
  "set_next m a p = (case nodes m a of
       None \<Rightarrow> Inl BadPointer
     | Some n \<Rightarrow> Inr (m\<lparr>nodes := (nodes m)(a \<mapsto> n\<lparr>next := p\<rparr>)\<rparr>))"

definition ll_append :: "mem \<Rightarrow> ptr \<Rightarrow> cint \<Rightarrow> mem res option" where
  "ll_append m head d = (case head of
       None \<Rightarrow> Some (Inr m)
     | Some h \<Rightarrow> (case ll_tail m head of
           None \<Rightarrow> None
         | Some (Inl e) \<Rightarrow> Some (Inl e)
         | Some (Inr None) \<Rightarrow> Some (Inr m)
         | Some (Inr (Some tail)) \<Rightarrow> (case ll_create m d of
               (None, m') \<Rightarrow> Some (Inr m')
             | (Some node, m') \<Rightarrow> Some (set_next m' tail (Some node)))))"

text \<open>
  The loop of \<open>ll_fromarray\<close>: \<open>for (int i = 1; i < len; ++i)\<close>. It ends since
  \<open>len - i\<close> decreases; \<open>++i\<close> cannot overflow below \<open>len\<close>.
\<close>

function ll_fromarray_loop ::
    "mem \<Rightarrow> int_array \<Rightarrow> int \<Rightarrow> addr \<Rightarrow> addr \<Rightarrow> int \<Rightarrow> (ptr \<times> mem) res option" where
  "ll_fromarray_loop m arr len head tail i =
     (if i < len then
        (case array_read arr i of
            Inl e \<Rightarrow> Some (Inl e)
          | Inr d \<Rightarrow> (case ll_create m d of
                (None, m') \<Rightarrow> (case ll_destroy m' (Some head) of
                      None \<Rightarrow> None
                    | Some (Inl e) \<Rightarrow> Some (Inl e)
                    | Some (Inr m'') \<Rightarrow> Some (Inr (None, m'')))
              | (Some node, m') \<Rightarrow> (case set_next m' tail (Some node) of
                      Inl e \<Rightarrow> Some (Inl e)
                    | Inr m'' \<Rightarrow> ll_fromarray_loop m'' arr len head node (i + 1))))
      else Some (Inr (Some head, m)))"
  by pat_completeness auto
termination
  by (relation "measure (\<lambda>(m, arr, len, head, tail, i). nat (len - i))") auto

definition ll_fromarray :: "mem \<Rightarrow> int_array option \<Rightarrow> int \<Rightarrow> (ptr \<times> mem) res option" where
  "ll_fromarray m arr len = (case arr of
       None \<Rightarrow> Some (Inr (None, m))
     | Some xs \<Rightarrow>
         if len \<le> 0 then Some (Inr (None, m))
         else (case array_read xs 0 of
             Inl e \<Rightarrow> Some (Inl e)
           | Inr d \<Rightarrow> (case ll_create m d of
                 (None, m') \<Rightarrow> Some (Inr (None, m'))
               | (Some head, m') \<Rightarrow> ll_fromarray_loop m' xs len head head 1)))"

text \<open>
  The search loop of \<open>ll_remove\<close>, entered when the head does not hold the value.
\<close>

partial_function (option) ll_remove_loop ::
    "mem \<Rightarrow> addr \<Rightarrow> cint \<Rightarrow> addr \<Rightarrow> ptr \<Rightarrow> (ptr \<times> mem) res option" where
  "ll_remove_loop m head v prev cur = (case cur of
       None \<Rightarrow> Some (Inr (Some head, m))
     | Some c \<Rightarrow> (case nodes m c of
           None \<Rightarrow> Some (Inl BadPointer)
         | Some cn \<Rightarrow>
             if data cn = v then
               (case set_next m prev (next cn) of
                   Inl e \<Rightarrow> Some (Inl e)
                 | Inr m' \<Rightarrow> (case free m' c of
                       Inl e \<Rightarrow> Some (Inl e)
                     | Inr m'' \<Rightarrow> Some (Inr (Some head, m''))))
             else ll_remove_loop m head v c (next cn)))"

declare ll_remove_loop.simps [code]

definition ll_remove :: "mem \<Rightarrow> ptr \<Rightarrow> cint \<Rightarrow> (ptr \<times> mem) res option" where
  "ll_remove m head v = (case head of
       None \<Rightarrow> Some (Inr (None, m))
     | Some h \<Rightarrow> (case nodes m h of
           None \<Rightarrow> Some (Inl BadPointer)
         | Some hn \<Rightarrow>
             if data hn = v then
               (case free m h of
                   Inl e \<Rightarrow> Some (Inl e)
                 | Inr m' \<Rightarrow> Some (Inr (next hn, m')))
             else ll_remove_loop m h v h (next hn)))"

subsection \<open>Valid lists\<close>

text \<open>
  \<open>islist h p as\<close>: from \<open>p\<close> the next-references run through exactly the live nodes at
  the addresses \<open>as\<close> and end in NULL. Such a chain is finite and acyclic.
  \<open>node_values\<close> reads the values of the nodes at the given addresses.
\<close>

fun islist :: "(addr \<rightharpoonup> ll_node) \<Rightarrow> ptr \<Rightarrow> addr list \<Rightarrow> bool" where
  "islist h p [] = (p = None)"
| "islist h p (a # as) =
     (p = Some a \<and> (case h a of None \<Rightarrow> False | Some n \<Rightarrow> islist h (next n) as))"

fun node_values :: "(addr \<rightharpoonup> ll_node) \<Rightarrow> addr list \<Rightarrow> cint list" where
  "node_values h [] = []"
| "node_values h (a # as) =
     (case h a of None \<Rightarrow> node_values h as | Some n \<Rightarrow> data n # node_values h as)"

text \<open>\<open>holds h v a\<close>: the node at \<open>a\<close> is live and its value is \<open>v\<close>.\<close>

definition holds :: "(addr \<rightharpoonup> ll_node) \<Rightarrow> cint \<Rightarrow> addr \<Rightarrow> bool" where
  "holds h v a = (case h a of None \<Rightarrow> False | Some n \<Rightarrow> data n = v)"

text \<open>
  \<open>del_first h v as\<close>: the addresses \<open>as\<close> without the first one whose node holds \<open>v\<close>.
\<close>

fun del_first :: "(addr \<rightharpoonup> ll_node) \<Rightarrow> cint \<Rightarrow> addr list \<Rightarrow> addr list" where
  "del_first h v [] = []"
| "del_first h v (a # as) = (if holds h v a then as else a # del_first h v as)"

text \<open>
  A memory for the examples: the list 10, 20, 30 at the addresses 1, 2 and 5, and an
  allocator that answers four more calls.
\<close>

definition mem3 :: mem where
  "mem3 = \<lparr>nodes = [1 \<mapsto> \<lparr>data = 10, next = Some 2\<rparr>,
                     2 \<mapsto> \<lparr>data = 20, next = Some 5\<rparr>,
                     5 \<mapsto> \<lparr>data = 30, next = None\<rparr>],
            mallocs = [Some 7, Some 8, Some 9, Some 11]\<rparr>"

subsection \<open>Facts about valid lists\<close>

lemma islist_None [simp]: "islist h None as = (as = [])"
  by (cases as) auto

lemma islist_Some:
  "islist h (Some a) as = (\<exists>n bs. as = a # bs \<and> h a = Some n \<and> islist h (next n) bs)"
  by (cases as) (auto split: option.splits)

lemma islist_unique: "islist h p as \<Longrightarrow> islist h p bs \<Longrightarrow> as = bs"
proof (induction as arbitrary: p bs)
  case Nil
  then show ?case by simp
next
  case (Cons a as)
  then show ?case by (cases bs) (auto split: option.splits)
qed

lemma islist_suffix: "islist h p (xs @ a # ys) \<Longrightarrow> islist h (Some a) (a # ys)"
proof (induction xs arbitrary: p)
  case Nil
  then show ?case by simp
next
  case (Cons x xs)
  from Cons.prems obtain n :: ll_node where "islist h (next n) (xs @ a # ys)"
    by (auto split: option.splits)
  then show ?case by (rule Cons.IH)
qed

lemma islist_head_notin:
  assumes "islist h p (a # as)"
  shows "a \<notin> set as"
proof
  assume "a \<in> set as"
  then obtain xs ys where as: "as = xs @ a # ys"
    by (auto simp: in_set_conv_decomp)
  from assms have p: "p = Some a" by simp
  from assms as have "islist h p ((a # xs) @ a # ys)" by simp
  then have "islist h (Some a) (a # ys)" by (rule islist_suffix)
  with assms p as have "a # xs @ a # ys = a # ys"
    using islist_unique by blast
  then have "length (xs @ a # ys) = length ys" by simp
  then show False by simp
qed

lemma islist_distinct: "islist h p as \<Longrightarrow> distinct as"
proof (induction as arbitrary: p)
  case Nil
  then show ?case by simp
next
  case (Cons a as)
  from Cons.prems have "a \<notin> set as" by (rule islist_head_notin)
  moreover from Cons.prems Cons.IH have "distinct as" by (auto split: option.splits)
  ultimately show ?case by simp
qed

lemma islist_frame:
  "\<forall>a \<in> set as. h' a = h a \<Longrightarrow> islist h' p as = islist h p as"
  by (induction as arbitrary: p) (auto split: option.splits)

lemma node_values_frame:
  "\<forall>a \<in> set as. h' a = h a \<Longrightarrow> node_values h' as = node_values h as"
  by (induction as) (auto split: option.splits)

lemma length_node_values: "islist h p as \<Longrightarrow> length (node_values h as) = length as"
  by (induction as arbitrary: p) (auto split: option.splits)

lemma ll_size_loop_islist:
  "islist (nodes m) p as \<Longrightarrow> c + int (length as) \<le> INT_MAX \<Longrightarrow>
   ll_size_loop m p c = Some (Inr (c + int (length as)))"
proof (induction as arbitrary: p c)
  case Nil
  then show ?case by (simp add: ll_size_loop.simps)
next
  case (Cons a as)
  from Cons.prems obtain n where n: "p = Some a" "nodes m a = Some n" "islist (nodes m) (next n) as"
    by (auto split: option.splits)
  from Cons.prems have c: "c \<noteq> INT_MAX" "(c + 1) + int (length as) \<le> INT_MAX" by auto
  from Cons.IH [OF n(3) c(2)] n c(1) show ?case
    by (subst ll_size_loop.simps) simp
qed

lemma ll_size_islist:
  "islist (nodes m) p as \<Longrightarrow> int (length as) \<le> INT_MAX \<Longrightarrow>
   ll_size m p = Some (Inr (int (length as)))"
  using ll_size_loop_islist [of m p as 0] by (simp add: ll_size_def)

text \<open>
  The bound is needed: on a longer chain the counter of \<open>ll_size\<close> overflows, which C
  leaves undefined. A list whose size is to be an \<open>int\<close> has at most \<open>INT_MAX\<close> nodes.
\<close>

lemma ll_size_loop_overflow:
  "islist (nodes m) p as \<Longrightarrow> c \<le> INT_MAX \<Longrightarrow> INT_MAX < c + int (length as) \<Longrightarrow>
   ll_size_loop m p c = Some (Inl IntOverflow)"
proof (induction as arbitrary: p c)
  case Nil
  then show ?case by simp
next
  case (Cons a as)
  from Cons.prems(1) obtain n where n: "p = Some a" "nodes m a = Some n" "islist (nodes m) (next n) as"
    by (auto split: option.splits)
  show ?case
  proof (cases "c = INT_MAX")
    case True
    with n show ?thesis by (subst ll_size_loop.simps) simp
  next
    case False
    with Cons.prems have "c + 1 \<le> INT_MAX" "INT_MAX < (c + 1) + int (length as)" by auto
    from Cons.IH [OF n(3) this] n False show ?thesis
      by (subst ll_size_loop.simps) simp
  qed
qed

lemma ll_size_overflow:
  "islist (nodes m) p as \<Longrightarrow> INT_MAX < int (length as) \<Longrightarrow> ll_size m p = Some (Inl IntOverflow)"
  using ll_size_loop_overflow [of m p as 0] by (simp add: ll_size_def INT_MAX_def)

lemma ll_find_islist:
  "islist (nodes m) p as \<Longrightarrow> ll_find m p v = Some (Inr (List.find (holds (nodes m) v) as))"
proof (induction as arbitrary: p)
  case Nil
  then show ?case by (simp add: ll_find.simps)
next
  case (Cons a as)
  from Cons.prems obtain n where n: "p = Some a" "nodes m a = Some n" "islist (nodes m) (next n) as"
    by (auto split: option.splits)
  from n(2) have "holds (nodes m) v a = (data n = v)" by (simp add: holds_def)
  with Cons.IH [OF n(3)] n show ?case
    by (subst ll_find.simps) simp
qed

lemma holds_values: "islist h p as \<Longrightarrow> i < length as \<Longrightarrow> holds h v (as ! i) = (node_values h as ! i = v)"
proof (induction as arbitrary: p i)
  case Nil
  then show ?case by simp
next
  case (Cons a as)
  from Cons.prems obtain n where n: "h a = Some n" "islist h (next n) as"
    by (auto split: option.splits)
  show ?case
  proof (cases i)
    case 0
    with n show ?thesis by (simp add: holds_def)
  next
    case (Suc j)
    with Cons.prems have "j < length as" by simp
    from Cons.IH [OF n(2) this] Suc n show ?thesis by simp
  qed
qed

lemma ll_toarray_loop_islist:
  "islist (nodes m) cur as \<Longrightarrow> 0 \<le> i \<Longrightarrow> nat i + length as = length arr \<Longrightarrow> n = int (length arr) \<Longrightarrow>
   ll_toarray_loop m cur i n arr = Some (Inr (take (nat i) arr @ map Some (node_values (nodes m) as)))"
proof (induction as arbitrary: cur i arr)
  case Nil
  then show ?case by (simp add: ll_toarray_loop.simps)
next
  case (Cons a as)
  from Cons.prems obtain nd where nd: "cur = Some a" "nodes m a = Some nd" "islist (nodes m) (next nd) as"
    by (auto split: option.splits)
  let ?arr = "arr[nat i := Some (data nd)]"
  from Cons.prems have i: "i < n" "nat i < length arr" by auto
  from Cons.prems have "nat (i + 1) + length as = length ?arr" "n = int (length ?arr)" "0 \<le> i + 1"
    by auto
  from Cons.IH [OF nd(3) this(3) this(1) this(2)]
  have "ll_toarray_loop m (next nd) (i + 1) n ?arr =
      Some (Inr (take (nat (i + 1)) ?arr @ map Some (node_values (nodes m) as)))" .
  moreover have "take (nat (i + 1)) ?arr = take (nat i) arr @ [Some (data nd)]"
  proof -
    from Cons.prems have "nat (i + 1) = Suc (nat i)" by simp
    with i show ?thesis by (simp add: take_Suc_conv_app_nth)
  qed
  ultimately show ?case using nd i Cons.prems(2)
    by (subst ll_toarray_loop.simps) simp
qed

lemma ll_toarray_islist:
  assumes "islist (nodes m) p as" "as \<noteq> []" "int (length as) \<le> INT_MAX" "mallocs m = Some b # rs"
  shows "ll_toarray m p = Some (Inr (Some (map Some (node_values (nodes m) as)), m\<lparr>mallocs := rs\<rparr>))"
proof -
  let ?m = "m\<lparr>mallocs := rs\<rparr>"
  from assms(1,2) obtain a where p: "p = Some a" by (cases as) auto
  from assms have sz: "ll_size m p = Some (Inr (int (length as)))" by (simp add: ll_size_islist)
  from assms(4) have ml: "malloc m = (Some b, ?m)" by (simp add: malloc_def)
  from assms(1) have "islist (nodes ?m) p as" by simp
  then have "ll_toarray_loop ?m p 0 (int (length as)) (replicate (length as) None) =
      Some (Inr (take (nat 0) (replicate (length as) None) @ map Some (node_values (nodes ?m) as)))"
    by (rule ll_toarray_loop_islist) simp_all
  with p sz ml assms(2) show ?thesis by (simp add: ll_toarray_def)
qed

subsection \<open>Size and array length\<close>

text \<open>
  C1: for a valid non-empty list (a finite acyclic chain, of at most \<open>INT_MAX\<close> nodes so
  that its size is an \<open>int\<close>), \<open>ll_toarray\<close> produces an array when its allocation
  succeeds, and \<open>ll_size\<close> of the list is the length of that array.
\<close>

theorem size_eq_length_toarray:
  assumes "islist (nodes m) p as" and "as \<noteq> []" and "int (length as) \<le> INT_MAX"
    and "mallocs m = Some b # rs"
  shows "\<exists>arr. ll_toarray m p = Some (Inr (Some arr, m\<lparr>mallocs := rs\<rparr>)) \<and>
               ll_size m p = Some (Inr (int (length arr)))"
proof -
  from assms(1) have "length (node_values (nodes m) as) = length as"
    by (rule length_node_values)
  with assms show ?thesis by (simp add: ll_toarray_islist ll_size_islist)
qed

theorem size_eq_length_toarray_witness:
  "islist (nodes mem3) (Some 1) [1, 2, 5] \<and> [1, 2, 5] \<noteq> ([] :: addr list) \<and>
   int (length [1::addr, 2, 5]) \<le> INT_MAX \<and> mallocs mem3 = Some 7 # [Some 8, Some 9, Some 11] \<and>
   (\<exists>arr. ll_toarray mem3 (Some 1) = Some (Inr (Some arr, mem3\<lparr>mallocs := [Some 8, Some 9, Some 11]\<rparr>)) \<and>
          ll_size mem3 (Some 1) = Some (Inr (int (length arr))))"
proof -
  have h: "islist (nodes mem3) (Some 1) [1, 2, 5]" "[1, 2, 5] \<noteq> ([] :: addr list)"
    "int (length [1::addr, 2, 5]) \<le> INT_MAX" "mallocs mem3 = Some 7 # [Some 8, Some 9, Some 11]"
    by (simp_all add: mem3_def INT_MAX_def)
  from size_eq_length_toarray [OF h] h show ?thesis by blast
qed

subsection \<open>Appending to the empty list\<close>

text \<open>
  C5: \<open>ll_append\<close> on the NULL head returns without a fault and leaves the memory as it
  is: no node is created and the allocator is not called; the size of the empty list is 0
  before and after.
\<close>

theorem append_empty_noop:
  "ll_append m None v = Some (Inr m) \<and> ll_size m None = Some (Inr 0)"
  by (simp add: ll_append_def ll_size_def ll_size_loop.simps)

subsection \<open>Searching\<close>

text \<open>
  C6: on a valid list \<open>ll_find\<close> returns NULL exactly when the value is not among the
  node values, and a node it returns is the first one in traversal order that holds the
  value.
\<close>

theorem find_first_match:
  assumes "islist (nodes m) p as"
  shows "\<exists>r. ll_find m p v = Some (Inr r) \<and>
     ((r = None) = (v \<notin> set (node_values (nodes m) as))) \<and>
     (case r of None \<Rightarrow> True
      | Some a \<Rightarrow> \<exists>i<length as. as ! i = a \<and> node_values (nodes m) as ! i = v \<and>
                    (\<forall>j<i. node_values (nodes m) as ! j \<noteq> v))"
proof -
  let ?h = "nodes m"
  let ?r = "List.find (holds ?h v) as"
  have len: "length (node_values ?h as) = length as"
    using assms by (rule length_node_values)
  have hv: "\<And>i. i < length as \<Longrightarrow> holds ?h v (as ! i) = (node_values ?h as ! i = v)"
    using assms by (rule holds_values)
  have 1: "ll_find m p v = Some (Inr ?r)" using assms by (rule ll_find_islist)
  have 2: "(?r = None) = (v \<notin> set (node_values ?h as))"
  proof -
    have "(?r = None) = (\<forall>i<length as. \<not> holds ?h v (as ! i))"
      by (auto simp: find_None_iff in_set_conv_nth)
    also have "\<dots> = (\<forall>i<length as. node_values ?h as ! i \<noteq> v)"
      using hv by simp
    also have "\<dots> = (v \<notin> set (node_values ?h as))"
      using len by (auto simp: in_set_conv_nth)
    finally show ?thesis .
  qed
  have 3: "case ?r of None \<Rightarrow> True
      | Some a \<Rightarrow> \<exists>i<length as. as ! i = a \<and> node_values ?h as ! i = v \<and>
                    (\<forall>j<i. node_values ?h as ! j \<noteq> v)"
  proof (cases ?r)
    case None
    then show ?thesis by simp
  next
    case (Some a)
    then obtain i where i: "i < length as" "holds ?h v (as ! i)" "a = as ! i"
        "\<forall>j<i. \<not> holds ?h v (as ! j)"
      by (auto simp: find_Some_iff)
    from i(4) i(1) hv have "\<forall>j<i. node_values ?h as ! j \<noteq> v" by simp
    with i hv Some show ?thesis by auto
  qed
  show ?thesis
    by (rule exI [of _ ?r]) (intro conjI 1 2 3)
qed

theorem find_first_match_witness:
  "islist (nodes mem3) (Some 1) [1, 2, 5] \<and> ll_find mem3 (Some 1) 20 = Some (Inr (Some 2)) \<and>
   ll_find mem3 (Some 1) 40 = Some (Inr None)"
proof -
  have h: "islist (nodes mem3) (Some 1) [1, 2, 5]" by (simp add: mem3_def)
  have v: "node_values (nodes mem3) [1, 2, 5] = [10, 20, 30]" by (simp add: mem3_def)
  from find_first_match [OF h, of 20] find_first_match [OF h, of 40] h v
  show ?thesis
    by (auto split: option.splits simp: less_Suc_eq nth_Cons')
qed

subsection \<open>Building a list from an array\<close>

text \<open>
  The loop of \<open>ll_fromarray\<close> extends the chain built so far, which ends in \<open>tail\<close>, by
  one node for each remaining cell, at the addresses the allocator hands out.
\<close>

lemma islist_snoc:
  assumes "islist h p (ds @ [t])" and "b \<notin> set (ds @ [t])" and "h t = Some tn"
  shows "islist (h(b \<mapsto> \<lparr>data = v, next = None\<rparr>, t \<mapsto> tn\<lparr>next := Some b\<rparr>)) p (ds @ [t, b])"
  using assms(1,2) islist_distinct [OF assms(1)]
proof (induction ds arbitrary: p)
  case Nil
  with assms(3) show ?case by auto
next
  case (Cons d ds)
  from Cons.prems(1) obtain dn where dn: "p = Some d" "h d = Some dn" "islist h (next dn) (ds @ [t])"
    by (auto split: option.splits)
  from Cons.prems have "b \<notin> set (ds @ [t])" "distinct (ds @ [t])" "d \<noteq> t" "d \<noteq> b" by auto
  with Cons.IH [OF dn(3)] dn show ?case by simp
qed

lemma node_values_snoc:
  assumes "islist h p (ds @ [t])" and "b \<notin> set (ds @ [t])" and "h t = Some tn"
  shows "node_values (h(b \<mapsto> \<lparr>data = v, next = None\<rparr>, t \<mapsto> tn\<lparr>next := Some b\<rparr>)) (ds @ [t, b])
       = node_values h (ds @ [t]) @ [v]"
  using assms(1,2) islist_distinct [OF assms(1)]
proof (induction ds arbitrary: p)
  case Nil
  with assms(3) show ?case by auto
next
  case (Cons d ds)
  from Cons.prems(1) obtain dn where dn: "p = Some d" "h d = Some dn" "islist h (next dn) (ds @ [t])"
    by (auto split: option.splits)
  from Cons.prems have "b \<notin> set (ds @ [t])" "distinct (ds @ [t])" "d \<noteq> t" "d \<noteq> b" by auto
  with Cons.IH [OF dn(3)] dn show ?case by simp
qed

lemma islist_last_live: "islist h p (ds @ [t]) \<Longrightarrow> \<exists>tn. h t = Some tn"
  by (induction ds arbitrary: p) (auto split: option.splits)

lemma ll_fromarray_loop_islist:
  assumes "islist (nodes m) (Some head) (ds @ [tail])"
    and "mallocs m = map Some bs @ rs"
    and "distinct (ds @ [tail] @ bs)"
    and "arr = pre @ map Some vs @ post"
    and "length pre = nat i" and "0 \<le> i" and "length vs = length bs"
    and "len = i + int (length bs)"
  shows "\<exists>m'. ll_fromarray_loop m arr len head tail i = Some (Inr (Some head, m')) \<and>
           islist (nodes m') (Some head) (ds @ [tail] @ bs) \<and>
           node_values (nodes m') (ds @ [tail] @ bs) = node_values (nodes m) (ds @ [tail]) @ vs \<and>
           mallocs m' = rs"
  using assms
proof (induction bs arbitrary: m ds tail i vs pre)
  case Nil
  then show ?case by simp
next
  case (Cons b bs)
  from Cons.prems(7) obtain v vs' where vs: "vs = v # vs'" "length vs' = length bs"
    by (cases vs) auto
  let ?h = "nodes m"
  let ?m1 = "m\<lparr>mallocs := map Some bs @ rs, nodes := ?h(b \<mapsto> \<lparr>data = v, next = None\<rparr>)\<rparr>"
  from islist_last_live [OF Cons.prems(1)] obtain tn where tn: "?h tail = Some tn" by blast
  let ?m2 = "?m1\<lparr>nodes := (nodes ?m1)(tail \<mapsto> tn\<lparr>next := Some b\<rparr>)\<rparr>"
  from Cons.prems(3) have b: "b \<notin> set (ds @ [tail])" "b \<noteq> tail" by auto
  have lt: "i < len" using Cons.prems(8) by simp
  have rd: "array_read arr i = Inr v"
    using Cons.prems(4,5,6) vs by (simp add: array_read_def nth_append)
  have cr: "ll_create m v = (Some b, ?m1)"
    using Cons.prems(2) by (simp add: ll_create_def malloc_def)
  have sn: "set_next ?m1 tail (Some b) = Inr ?m2"
    using tn b by (simp add: set_next_def)
  have step: "ll_fromarray_loop m arr len head tail i = ll_fromarray_loop ?m2 arr len head b (i + 1)"
    using lt rd cr sn by (subst ll_fromarray_loop.simps) simp
  have nm2: "nodes ?m2 = ?h(b \<mapsto> \<lparr>data = v, next = None\<rparr>, tail \<mapsto> tn\<lparr>next := Some b\<rparr>)"
    by simp
  have 1: "islist (nodes ?m2) (Some head) ((ds @ [tail]) @ [b])"
    unfolding nm2 using islist_snoc [OF Cons.prems(1) b(1) tn] by simp
  have 2: "mallocs ?m2 = map Some bs @ rs" by simp
  have 3: "distinct ((ds @ [tail]) @ [b] @ bs)" using Cons.prems(3) by auto
  have 4: "arr = (pre @ [Some v]) @ map Some vs' @ post" using Cons.prems(4) vs by simp
  have 5: "length (pre @ [Some v]) = nat (i + 1)" using Cons.prems(5,6) by simp
  have 6: "0 \<le> i + 1" using Cons.prems(6) by simp
  have 8: "len = (i + 1) + int (length bs)" using Cons.prems(8) by simp
  from Cons.IH [OF 1 2 3 4 5 6 vs(2) 8] obtain m' where m':
    "ll_fromarray_loop ?m2 arr len head b (i + 1) = Some (Inr (Some head, m'))"
    "islist (nodes m') (Some head) ((ds @ [tail]) @ [b] @ bs)"
    "node_values (nodes m') ((ds @ [tail]) @ [b] @ bs) = node_values (nodes ?m2) ((ds @ [tail]) @ [b]) @ vs'"
    "mallocs m' = rs"
    by blast
  have "node_values (nodes ?m2) ((ds @ [tail]) @ [b]) = node_values ?h (ds @ [tail]) @ [v]"
    unfolding nm2 using node_values_snoc [OF Cons.prems(1) b(1) tn] by simp
  with m' step vs show ?case by simp
qed

lemma ll_fromarray_islist:
  assumes "mallocs m = map Some bs @ rs" and "distinct bs" and "length vs = length bs"
    and "bs \<noteq> []" and "len = int (length bs)"
  shows "\<exists>m'. ll_fromarray m (Some (map Some vs @ post)) len = Some (Inr (Some (hd bs), m')) \<and>
           islist (nodes m') (Some (hd bs)) bs \<and> node_values (nodes m') bs = vs \<and> mallocs m' = rs"
proof -
  from assms(4) obtain b bs' where bs: "bs = b # bs'" by (cases bs) auto
  with assms(3) obtain v vs' where vs: "vs = v # vs'" "length vs' = length bs'" by (cases vs) auto
  let ?arr = "map Some vs @ post"
  let ?m1 = "m\<lparr>mallocs := map Some bs' @ rs, nodes := (nodes m)(b \<mapsto> \<lparr>data = v, next = None\<rparr>)\<rparr>"
  have rd: "array_read ?arr 0 = Inr v" using vs by (simp add: array_read_def)
  have cr: "ll_create m v = (Some b, ?m1)"
    using assms(1) bs by (simp add: ll_create_def malloc_def)
  have len: "0 < len" using assms(5) bs by simp
  have start: "ll_fromarray m (Some ?arr) len = ll_fromarray_loop ?m1 ?arr len b b 1"
    using rd cr len by (simp add: ll_fromarray_def)
  have 1: "islist (nodes ?m1) (Some b) ([] @ [b])" by simp
  have 2: "mallocs ?m1 = map Some bs' @ rs" by simp
  have 3: "distinct ([] @ [b] @ bs')" using assms(2) bs by simp
  have 4: "?arr = [Some v] @ map Some vs' @ post" using vs by simp
  have 5: "length [Some v] = nat 1" by simp
  have 8: "len = 1 + int (length bs')" using assms(5) bs by simp
  from ll_fromarray_loop_islist [OF 1 2 3 4 5 _ vs(2) 8] obtain m' where
    "ll_fromarray_loop ?m1 ?arr len b b 1 = Some (Inr (Some b, m'))"
    "islist (nodes m') (Some b) ([] @ [b] @ bs')"
    "node_values (nodes m') ([] @ [b] @ bs') = node_values (nodes ?m1) ([] @ [b]) @ vs'"
    "mallocs m' = rs"
    by auto
  with start bs vs show ?thesis by simp
qed

text \<open>
  C2: for a valid non-empty list, when the allocations succeed (one array and one node
  per value, at distinct addresses), \<open>ll_fromarray\<close> of the array of \<open>ll_toarray\<close> and
  of \<open>ll_size\<close> returns a valid list with the same sequence of values.
\<close>

theorem fromarray_toarray_roundtrip:
  assumes "islist (nodes m) p as" and "as \<noteq> []" and "int (length as) \<le> INT_MAX"
    and "mallocs m = Some c # map Some bs @ rs" and "length bs = length as" and "distinct bs"
  shows "\<exists>arr n q m2.
      ll_toarray m p = Some (Inr (Some arr, m\<lparr>mallocs := map Some bs @ rs\<rparr>)) \<and>
      ll_size m p = Some (Inr n) \<and>
      ll_fromarray (m\<lparr>mallocs := map Some bs @ rs\<rparr>) (Some arr) n = Some (Inr (q, m2)) \<and>
      islist (nodes m2) q bs \<and>
      node_values (nodes m2) bs = node_values (nodes m) as"
proof -
  let ?vs = "node_values (nodes m) as"
  let ?m1 = "m\<lparr>mallocs := map Some bs @ rs\<rparr>"
  have ta: "ll_toarray m p = Some (Inr (Some (map Some ?vs), ?m1))"
    using assms(1-4) by (rule ll_toarray_islist)
  have sz: "ll_size m p = Some (Inr (int (length as)))"
    using assms(1,3) by (rule ll_size_islist)
  have len: "length ?vs = length bs"
    using assms(1,5) by (simp add: length_node_values)
  from assms(2,5) have ne: "bs \<noteq> []" by auto
  have "mallocs ?m1 = map Some bs @ rs" by simp
  from ll_fromarray_islist [OF this assms(6) len ne, of "int (length as)" "[]"] assms(5)
  obtain m2 where
    "ll_fromarray ?m1 (Some (map Some ?vs)) (int (length as)) = Some (Inr (Some (hd bs), m2))"
    "islist (nodes m2) (Some (hd bs)) bs" "node_values (nodes m2) bs = ?vs"
    by auto
  with ta sz show ?thesis by blast
qed

theorem fromarray_toarray_roundtrip_witness:
  "islist (nodes mem3) (Some 1) [1, 2, 5] \<and> [1, 2, 5] \<noteq> ([] :: addr list) \<and>
   int (length [1::addr, 2, 5]) \<le> INT_MAX \<and>
   mallocs mem3 = Some 7 # map Some [8, 9, 11] @ [] \<and> length [8::addr, 9, 11] = length [1::addr, 2, 5] \<and>
   distinct [8::addr, 9, 11] \<and>
   (\<exists>arr n q m2.
      ll_toarray mem3 (Some 1) = Some (Inr (Some arr, mem3\<lparr>mallocs := map Some [8, 9, 11] @ []\<rparr>)) \<and>
      ll_size mem3 (Some 1) = Some (Inr n) \<and>
      ll_fromarray (mem3\<lparr>mallocs := map Some [8, 9, 11] @ []\<rparr>) (Some arr) n = Some (Inr (q, m2)) \<and>
      islist (nodes m2) q [8, 9, 11] \<and>
      node_values (nodes m2) [8, 9, 11] = node_values (nodes mem3) [1, 2, 5])"
proof -
  have h: "islist (nodes mem3) (Some 1) [1, 2, 5]" "[1, 2, 5] \<noteq> ([] :: addr list)"
    "int (length [1::addr, 2, 5]) \<le> INT_MAX"
    "mallocs mem3 = Some 7 # map Some [8, 9, 11] @ []"
    "length [8::addr, 9, 11] = length [1::addr, 2, 5]" "distinct [8::addr, 9, 11]"
    by (simp_all add: mem3_def INT_MAX_def)
  from fromarray_toarray_roundtrip [OF h] h show ?thesis by blast
qed

text \<open>
  C8: \<open>ll_fromarray\<close> returns NULL when the array is NULL or \<open>len \<le> 0\<close>, so for the
  empty array and length 0; for the array \<open>[7]\<close> and length 1 it returns, when the
  allocation succeeds, a list of one node that holds 7.
\<close>

theorem fromarray_degenerate:
  "(arr = None \<or> len \<le> 0 \<longrightarrow> ll_fromarray m arr len = Some (Inr (None, m))) \<and>
   ll_fromarray m (Some []) 0 = Some (Inr (None, m)) \<and>
   (mallocs m = Some a # rs \<longrightarrow>
      (\<exists>m'. ll_fromarray m (Some [Some 7]) 1 = Some (Inr (Some a, m')) \<and>
            islist (nodes m') (Some a) [a] \<and> node_values (nodes m') [a] = [7]))"
proof (intro conjI impI)
  assume "arr = None \<or> len \<le> 0"
  then show "ll_fromarray m arr len = Some (Inr (None, m))"
    by (auto simp: ll_fromarray_def split: option.splits)
next
  show "ll_fromarray m (Some []) 0 = Some (Inr (None, m))"
    by (simp add: ll_fromarray_def)
next
  assume "mallocs m = Some a # rs"
  then have "mallocs m = map Some [a] @ rs" by simp
  from ll_fromarray_islist [OF this, of "[7]" 1 "[]"]
  show "\<exists>m'. ll_fromarray m (Some [Some 7]) 1 = Some (Inr (Some a, m')) \<and>
            islist (nodes m') (Some a) [a] \<and> node_values (nodes m') [a] = [7]"
    by auto
qed

theorem fromarray_degenerate_witness:
  "ll_fromarray mem3 None 3 = Some (Inr (None, mem3)) \<and>
   ll_fromarray mem3 (Some [Some 4]) (- 1) = Some (Inr (None, mem3)) \<and>
   mallocs mem3 = Some 7 # [Some 8, Some 9, Some 11] \<and>
   (\<exists>m'. ll_fromarray mem3 (Some [Some 7]) 1 = Some (Inr (Some 7, m')) \<and>
         islist (nodes m') (Some 7) [7] \<and> node_values (nodes m') [7] = [7])"
proof -
  have h: "mallocs mem3 = Some 7 # [Some 8, Some 9, Some 11]" by (simp add: mem3_def)
  from fromarray_degenerate [of None 3 mem3 7 "[Some 8, Some 9, Some 11]"]
    fromarray_degenerate [of "Some [Some 4]" "- 1" mem3 7 "[Some 8, Some 9, Some 11]"] h
  show ?thesis by simp
qed

text \<open>
  C9: for an array of \<open>len \<ge> 1\<close> values, when the allocations succeed, the list of
  \<open>ll_fromarray\<close> has size \<open>len\<close> and \<open>ll_toarray\<close> of it gives the values back in
  order.
\<close>

theorem fromarray_size_toarray:
  assumes "1 \<le> len" and "len \<le> INT_MAX" and "length vs = nat len"
    and "mallocs m = map Some bs @ Some c # rs" and "length bs = nat len" and "distinct bs"
  shows "\<exists>q m1. ll_fromarray m (Some (map Some vs)) len = Some (Inr (Some q, m1)) \<and>
      ll_size m1 (Some q) = Some (Inr len) \<and>
      ll_toarray m1 (Some q) = Some (Inr (Some (map Some vs), m1\<lparr>mallocs := rs\<rparr>))"
proof -
  from assms(1,5) have ne: "bs \<noteq> []" by auto
  from assms(1,5) have len: "len = int (length bs)" by simp
  from assms(3,5) have lv: "length vs = length bs" by simp
  from ll_fromarray_islist [OF assms(4,6) lv ne len, of "[]"]
  obtain m1 where m1:
    "ll_fromarray m (Some (map Some vs)) len = Some (Inr (Some (hd bs), m1))"
    "islist (nodes m1) (Some (hd bs)) bs" "node_values (nodes m1) bs = vs"
    "mallocs m1 = Some c # rs"
    by auto
  from assms(2) len have b: "int (length bs) \<le> INT_MAX" by simp
  have "ll_size m1 (Some (hd bs)) = Some (Inr len)"
    using ll_size_islist [OF m1(2) b] len by simp
  moreover have "ll_toarray m1 (Some (hd bs)) = Some (Inr (Some (map Some vs), m1\<lparr>mallocs := rs\<rparr>))"
    using ll_toarray_islist [OF m1(2) ne b m1(4)] m1(3) by simp
  ultimately show ?thesis using m1(1) by blast
qed

theorem fromarray_size_toarray_witness:
  "(1::int) \<le> 2 \<and> 2 \<le> INT_MAX \<and> length [4::cint, 6] = nat 2 \<and>
   mallocs mem3 = map Some [7, 8] @ Some 9 # [Some 11] \<and> length [7::addr, 8] = nat 2 \<and>
   distinct [7::addr, 8] \<and>
   (\<exists>q m1. ll_fromarray mem3 (Some (map Some [4, 6])) 2 = Some (Inr (Some q, m1)) \<and>
      ll_size m1 (Some q) = Some (Inr 2) \<and>
      ll_toarray m1 (Some q) = Some (Inr (Some (map Some [4, 6]), m1\<lparr>mallocs := [Some 11]\<rparr>)))"
proof -
  have h: "(1::int) \<le> 2" "2 \<le> INT_MAX" "length [4::cint, 6] = nat 2"
    "mallocs mem3 = map Some [7, 8] @ Some 9 # [Some 11]" "length [7::addr, 8] = nat 2"
    "distinct [7::addr, 8]"
    by (simp_all add: mem3_def INT_MAX_def)
  from fromarray_size_toarray [OF h] h show ?thesis by blast
qed

subsection \<open>Removing a value\<close>

lemma ll_remove_empty: "ll_remove m None v = Some (Inr (None, m))"
  by (simp add: ll_remove_def)

lemma ll_remove_head:
  "nodes m a = Some n \<Longrightarrow> data n = v \<Longrightarrow>
   ll_remove m (Some a) v = Some (Inr (next n, m\<lparr>nodes := (nodes m)(a := None)\<rparr>))"
  by (simp add: ll_remove_def free_def)

lemma ll_remove_other:
  "nodes m a = Some n \<Longrightarrow> data n \<noteq> v \<Longrightarrow>
   ll_remove m (Some a) v = ll_remove_loop m a v a (next n)"
  by (simp add: ll_remove_def)

lemma ll_remove_loop_absent:
  "islist (nodes m) cur cs \<Longrightarrow> v \<notin> set (node_values (nodes m) cs) \<Longrightarrow>
   ll_remove_loop m head v prev cur = Some (Inr (Some head, m))"
proof (induction cs arbitrary: prev cur)
  case Nil
  then show ?case by (simp add: ll_remove_loop.simps)
next
  case (Cons c cs)
  from Cons.prems(1) obtain cn where cn: "cur = Some c" "nodes m c = Some cn" "islist (nodes m) (next cn) cs"
    by (auto split: option.splits)
  from Cons.prems(2) cn have v: "data cn \<noteq> v" "v \<notin> set (node_values (nodes m) cs)" by auto
  from Cons.IH [OF cn(3) v(2)] cn v(1) show ?case
    by (subst ll_remove_loop.simps) simp
qed

lemma ll_remove_loop_present:
  assumes "nodes m prev = Some pn" and "next pn = cur" and "islist (nodes m) cur cs"
    and "prev \<notin> set cs" and "v \<in> set (node_values (nodes m) cs)"
  shows "\<exists>m'. ll_remove_loop m head v prev cur = Some (Inr (Some head, m')) \<and>
      islist (nodes m') (Some prev) (prev # del_first (nodes m) v cs) \<and>
      node_values (nodes m') (prev # del_first (nodes m) v cs) =
        data pn # remove1 v (node_values (nodes m) cs) \<and>
      (\<forall>x. x \<notin> set (prev # cs) \<longrightarrow> nodes m' x = nodes m x) \<and>
      (\<forall>x \<in> set (prev # del_first (nodes m) v cs).
          map_option data (nodes m' x) = map_option data (nodes m x)) \<and>
      mallocs m' = mallocs m"
  using assms
proof (induction cs arbitrary: prev pn cur)
  case Nil
  then show ?case by simp
next
  case (Cons c cs)
  let ?h = "nodes m"
  from Cons.prems(3) obtain cn where cn: "cur = Some c" "?h c = Some cn" "islist ?h (next cn) cs"
    by (auto split: option.splits)
  from Cons.prems(3) have c: "c \<notin> set cs" by (rule islist_head_notin)
  from Cons.prems(4) have p: "prev \<noteq> c" "prev \<notin> set cs" by auto
  show ?case
  proof (cases "data cn = v")
    case True
    let ?m1 = "m\<lparr>nodes := ?h(prev \<mapsto> pn\<lparr>next := next cn\<rparr>)\<rparr>"
    let ?m2 = "?m1\<lparr>nodes := (nodes ?m1)(c := None)\<rparr>"
    have sn: "set_next m prev (next cn) = Inr ?m1"
      using Cons.prems(1) by (simp add: set_next_def)
    have fr: "free ?m1 c = Inr ?m2"
      using cn(2) p(1) by (simp add: free_def)
    have run: "ll_remove_loop m head v prev cur = Some (Inr (Some head, ?m2))"
      using cn True sn fr by (subst ll_remove_loop.simps) simp
    have same: "\<forall>a \<in> set cs. nodes ?m2 a = ?h a" using c p by auto
    have "islist (nodes ?m2) (next cn) cs"
      by (subst islist_frame [OF same]) (rule cn(3))
    then have 1: "islist (nodes ?m2) (Some prev) (prev # cs)"
      using p(1) by simp
    have "node_values (nodes ?m2) cs = node_values ?h cs"
      by (rule node_values_frame [OF same])
    then have 2: "node_values (nodes ?m2) (prev # cs) = data pn # remove1 v (node_values ?h (c # cs))"
      using cn(2) True p(1) by simp
    have 3: "\<forall>x. x \<notin> set (prev # c # cs) \<longrightarrow> nodes ?m2 x = ?h x" by simp
    have 4: "mallocs ?m2 = mallocs m" by simp
    have 5: "\<forall>x \<in> set (prev # cs). map_option data (nodes ?m2 x) = map_option data (?h x)"
      using same Cons.prems(1) p(1) by simp
    have d: "del_first ?h v (c # cs) = cs" using cn(2) True by (simp add: holds_def)
    show ?thesis
      unfolding d by (intro exI [of _ ?m2] conjI run 1 2 3 4 5)
  next
    case False
    with Cons.prems(5) cn(2) have v: "v \<in> set (node_values ?h cs)" by auto
    let ?cs' = "del_first ?h v cs"
    from Cons.IH [OF cn(2) refl cn(3) c v] obtain m' where m':
      "ll_remove_loop m head v c (next cn) = Some (Inr (Some head, m'))"
      "islist (nodes m') (Some c) (c # ?cs')"
      "node_values (nodes m') (c # ?cs') = data cn # remove1 v (node_values ?h cs)"
      "\<forall>x. x \<notin> set (c # cs) \<longrightarrow> nodes m' x = ?h x"
      "mallocs m' = mallocs m"
      "\<forall>x \<in> set (c # ?cs'). map_option data (nodes m' x) = map_option data (?h x)"
      by blast
    have run: "ll_remove_loop m head v prev cur = Some (Inr (Some head, m'))"
      using cn False m'(1) by (subst ll_remove_loop.simps) simp
    from m'(4) p Cons.prems(1) have pm: "nodes m' prev = Some pn" by simp
    have 1: "islist (nodes m') (Some prev) (prev # c # ?cs')"
      using pm Cons.prems(2) cn(1) m'(2) by simp
    have 2: "node_values (nodes m') (prev # c # ?cs') = data pn # remove1 v (node_values ?h (c # cs))"
      using pm m'(3) cn(2) False by simp
    have 3: "\<forall>x. x \<notin> set (prev # c # cs) \<longrightarrow> nodes m' x = ?h x"
      using m'(4) by simp
    have 5: "\<forall>x \<in> set (prev # c # ?cs'). map_option data (nodes m' x) = map_option data (?h x)"
      using m'(6) pm Cons.prems(1) by simp
    have d: "del_first ?h v (c # cs) = c # ?cs'" using cn(2) False by (simp add: holds_def)
    show ?thesis
      unfolding d by (intro exI [of _ m'] conjI run 1 2 3 5 m'(5))
  qed
qed

lemma del_first_absent:
  "islist h p as \<Longrightarrow> v \<notin> set (node_values h as) \<Longrightarrow> del_first h v as = as"
proof (induction as arbitrary: p)
  case Nil
  then show ?case by simp
next
  case (Cons a as)
  from Cons.prems(1) obtain n where n: "h a = Some n" "islist h (next n) as"
    by (auto split: option.splits)
  with Cons.prems(2) have "\<not> holds h v a" "v \<notin> set (node_values h as)"
    by (auto simp: holds_def)
  with Cons.IH [OF n(2)] show ?case by simp
qed

text \<open>
  What \<open>ll_remove\<close> does on a valid list: the returned head, the chain that is left
  and the memory, in each of its three outcomes (head removed, inner node removed,
  nothing removed).
\<close>

lemma ll_remove_islist:
  assumes "islist (nodes m) p as"
  shows "\<exists>q m' bs. ll_remove m p v = Some (Inr (q, m')) \<and>
      bs = del_first (nodes m) v as \<and>
      (\<forall>x \<in> set bs. map_option data (nodes m' x) = map_option data (nodes m x)) \<and>
      islist (nodes m') q bs \<and>
      node_values (nodes m') bs = remove1 v (node_values (nodes m) as) \<and>
      mallocs m' = mallocs m \<and>
      (v \<notin> set (node_values (nodes m) as) \<longrightarrow> q = p \<and> m' = m) \<and>
      (q \<noteq> p \<longrightarrow> (\<exists>a. p = Some a \<and> holds (nodes m) v a \<and> nodes m' a = None)) \<and>
      ((q = None) = (p = None \<or> (\<exists>a. as = [a] \<and> holds (nodes m) v a \<and> nodes m' a = None)))"
proof (cases as)
  case Nil
  with assms have "p = None" by simp
  with Nil assms show ?thesis by (simp add: ll_remove_empty)
next
  case (Cons a as')
  let ?h = "nodes m"
  from assms Cons obtain n where n: "p = Some a" "?h a = Some n" "islist ?h (next n) as'"
    by (auto split: option.splits)
  from assms Cons have a: "a \<notin> set as'" using islist_head_notin by blast
  show ?thesis
  proof (cases "data n = v")
    case True
    let ?m' = "m\<lparr>nodes := ?h(a := None)\<rparr>"
    have run: "ll_remove m p v = Some (Inr (next n, ?m'))"
      using n True by (simp add: ll_remove_head)
    have same: "\<forall>x \<in> set as'. nodes ?m' x = ?h x" using a by auto
    have 1: "islist (nodes ?m') (next n) as'"
      by (subst islist_frame [OF same]) (rule n(3))
    have "node_values (nodes ?m') as' = node_values ?h as'"
      by (rule node_values_frame [OF same])
    then have 2: "node_values (nodes ?m') as' = remove1 v (node_values ?h as)"
      using Cons n(2) True by simp
    have 3: "mallocs ?m' = mallocs m" by simp
    have hv: "holds ?h v a" using n(2) True by (simp add: holds_def)
    have d: "as' = del_first ?h v as" using Cons hv by simp
    have k: "\<forall>x \<in> set as'. map_option data (nodes ?m' x) = map_option data (?h x)"
      using same by simp
    have 4: "v \<notin> set (node_values ?h as) \<longrightarrow> next n = p \<and> ?m' = m"
      using Cons n(2) True by simp
    have 5: "next n \<noteq> p \<longrightarrow> (\<exists>x. p = Some x \<and> holds ?h v x \<and> nodes ?m' x = None)"
      using hv n(1) by simp
    have "(next n = None) = (as = [a])" using n(3) Cons by (cases as') auto
    with hv Cons n(1)
    have 6: "(next n = None) = (p = None \<or> (\<exists>x. as = [x] \<and> holds ?h v x \<and> nodes ?m' x = None))"
      by auto
    show ?thesis
      by (intro exI [of _ "next n"] exI [of _ ?m'] exI [of _ as'] conjI run d k 1 2 3 4 5 6)
  next
    case False
    have nh: "\<not> holds ?h v a" using n(2) False by (simp add: holds_def)
    have step: "ll_remove m p v = ll_remove_loop m a v a (next n)"
      using n False by (simp add: ll_remove_other)
    have 5: "\<And>m'. Some a \<noteq> p \<longrightarrow> (\<exists>x. p = Some x \<and> holds ?h v x \<and> nodes m' x = None)"
      using n(1) by simp
    have 6: "\<And>m'. (Some a = None) = (p = None \<or> (\<exists>x. as = [x] \<and> holds ?h v x \<and> nodes m' x = None))"
      using n(1) nh Cons by auto
    show ?thesis
    proof (cases "v \<in> set (node_values ?h as')")
      case True
      let ?cs' = "del_first ?h v as'"
      from ll_remove_loop_present [OF n(2) refl n(3) a True, of a] obtain m' where m':
        "ll_remove_loop m a v a (next n) = Some (Inr (Some a, m'))"
        "islist (nodes m') (Some a) (a # ?cs')"
        "node_values (nodes m') (a # ?cs') = data n # remove1 v (node_values ?h as')"
        "mallocs m' = mallocs m"
        "\<forall>x \<in> set (a # ?cs'). map_option data (nodes m' x) = map_option data (?h x)"
        by blast
      have d: "a # ?cs' = del_first ?h v as" using Cons nh by simp
      have run: "ll_remove m p v = Some (Inr (Some a, m'))" using step m'(1) by simp
      have 2: "node_values (nodes m') (a # ?cs') = remove1 v (node_values ?h as)"
        using m'(3) Cons n(2) False by simp
      have 4: "v \<notin> set (node_values ?h as) \<longrightarrow> Some a = p \<and> m' = m"
        using True Cons n(2) by simp
      show ?thesis
        by (intro exI [of _ "Some a"] exI [of _ m'] exI [of _ "a # ?cs'"] conjI
              run d m'(5) m'(2) 2 m'(4) 4 5 6)
    next
      case F: False
      have run: "ll_remove m p v = Some (Inr (Some a, m))"
        using step ll_remove_loop_absent [OF n(3) F] by simp
      have 2: "node_values ?h as = remove1 v (node_values ?h as)"
        using F Cons n(2) False by (simp add: remove1_idem)
      have 4: "v \<notin> set (node_values ?h as) \<longrightarrow> Some a = p \<and> m = m"
        using n(1) by simp
      have 1: "islist ?h (Some a) as" using assms n(1) by simp
      have "v \<notin> set (node_values ?h as)" using F Cons n(2) False by simp
      with assms have d: "as = del_first ?h v as" by (rule del_first_absent [symmetric])
      have k: "\<forall>x \<in> set as. map_option data (?h x) = map_option data (?h x)" by simp
      show ?thesis
        by (intro exI [of _ "Some a"] exI [of _ m] exI [of _ as] conjI run d k 1 2 4 5 6 refl)
    qed
  qed
qed

lemma find_holds_None:
  assumes "islist h p as"
  shows "(List.find (holds h v) as = None) = (v \<notin> set (node_values h as))"
proof -
  have len: "length (node_values h as) = length as"
    using assms by (rule length_node_values)
  have "(List.find (holds h v) as = None) = (\<forall>i<length as. \<not> holds h v (as ! i))"
    by (auto simp: find_None_iff in_set_conv_nth)
  also have "\<dots> = (\<forall>i<length as. node_values h as ! i \<noteq> v)"
    using holds_values [OF assms] by simp
  also have "\<dots> = (v \<notin> set (node_values h as))"
    using len by (auto simp: in_set_conv_nth)
  finally show ?thesis .
qed

lemma count_list_remove1_once: "count_list xs v = 1 \<Longrightarrow> v \<notin> set (remove1 v xs)"
  by (induction xs) (auto simp: count_list_0_iff split: if_splits)

lemma count_list_pos_mem: "count_list xs v = 1 \<Longrightarrow> v \<in> set xs"
  using count_list_0_iff [of xs v] by auto

text \<open>
  C3: when \<open>v\<close> occurs exactly once among the values of a valid list (of at most
  \<open>INT_MAX\<close> nodes), the list \<open>ll_remove\<close> returns has the size of the list minus 1,
  and \<open>ll_find\<close> of \<open>v\<close> on it returns NULL.
\<close>

theorem remove_once_size_find:
  assumes "islist (nodes m) p as" and "int (length as) \<le> INT_MAX"
    and "count_list (node_values (nodes m) as) v = 1"
  shows "\<exists>q m' n. ll_size m p = Some (Inr n) \<and> ll_remove m p v = Some (Inr (q, m')) \<and>
      ll_size m' q = Some (Inr (n - 1)) \<and> ll_find m' q v = Some (Inr None)"
proof -
  let ?vs = "node_values (nodes m) as"
  from ll_remove_islist [OF assms(1), of v] obtain q m' bs where r:
    "ll_remove m p v = Some (Inr (q, m'))" "islist (nodes m') q bs"
    "node_values (nodes m') bs = remove1 v ?vs"
    by blast
  from assms(3) have mem: "v \<in> set ?vs" by (rule count_list_pos_mem)
  have "length bs = length (node_values (nodes m') bs)"
    using r(2) by (simp add: length_node_values)
  also have "\<dots> = length ?vs - 1" using r(3) mem by (simp add: length_remove1)
  also have "\<dots> = length as - 1" using assms(1) by (simp add: length_node_values)
  finally have len: "length bs = length as - 1" .
  from mem have "as \<noteq> []" by auto
  with len have il: "int (length bs) = int (length as) - 1" by (cases as) auto
  with assms(2) have "int (length bs) \<le> INT_MAX" by simp
  with r(2) il have sz': "ll_size m' q = Some (Inr (int (length as) - 1))"
    by (simp add: ll_size_islist)
  have sz: "ll_size m p = Some (Inr (int (length as)))"
    using assms(1,2) by (rule ll_size_islist)
  have "v \<notin> set (node_values (nodes m') bs)"
    using r(3) assms(3) by (simp add: count_list_remove1_once)
  then have "List.find (holds (nodes m') v) bs = None"
    using find_holds_None [OF r(2)] by simp
  then have fd: "ll_find m' q v = Some (Inr None)"
    using ll_find_islist [OF r(2), of v] by simp
  from sz r(1) sz' fd show ?thesis by blast
qed

theorem remove_once_size_find_witness:
  "islist (nodes mem3) (Some 1) [1, 2, 5] \<and> int (length [1::addr, 2, 5]) \<le> INT_MAX \<and>
   count_list (node_values (nodes mem3) [1, 2, 5]) 20 = 1 \<and>
   (\<exists>q m' n. ll_size mem3 (Some 1) = Some (Inr n) \<and> ll_remove mem3 (Some 1) 20 = Some (Inr (q, m')) \<and>
      ll_size m' q = Some (Inr (n - 1)) \<and> ll_find m' q 20 = Some (Inr None))"
proof -
  have h: "islist (nodes mem3) (Some 1) [1, 2, 5]" "int (length [1::addr, 2, 5]) \<le> INT_MAX"
    "count_list (node_values (nodes mem3) [1, 2, 5]) 20 = 1"
    by (simp_all add: mem3_def INT_MAX_def)
  from remove_once_size_find [OF h] h show ?thesis by blast
qed

lemma ll_remove_head_islist:
  assumes "islist (nodes m) (Some a) as" and "holds (nodes m) v a"
  shows "\<exists>n. nodes m a = Some n \<and>
      ll_remove m (Some a) v = Some (Inr (next n, m\<lparr>nodes := (nodes m)(a := None)\<rparr>)) \<and>
      next n \<noteq> Some a \<and> (next n = None) = (as = [a])"
proof -
  from assms(1) obtain n as' where n: "as = a # as'" "nodes m a = Some n" "islist (nodes m) (next n) as'"
    by (auto simp: islist_Some)
  from assms(2) n(2) have d: "data n = v" by (simp add: holds_def)
  from assms(1) n(1) have "a \<notin> set as'" using islist_head_notin by blast
  with n(3) have ne: "next n \<noteq> Some a" by (auto simp: islist_Some)
  have e: "(next n = None) = (as = [a])" using n(1,3) by (cases as') auto
  from n(2) d have r: "ll_remove m (Some a) v = Some (Inr (next n, m\<lparr>nodes := (nodes m)(a := None)\<rparr>))"
    by (rule ll_remove_head)
  show ?thesis
    by (intro exI [of _ n] conjI n(2) r ne e)
qed

lemma ll_remove_keeps_head:
  assumes "islist (nodes m) p as" and "\<not> (\<exists>a. p = Some a \<and> holds (nodes m) v a)"
  shows "\<exists>m'. ll_remove m p v = Some (Inr (p, m'))"
proof -
  from ll_remove_islist [OF assms(1), of v] obtain q m' where r:
    "ll_remove m p v = Some (Inr (q, m'))"
    "q \<noteq> p \<longrightarrow> (\<exists>a. p = Some a \<and> holds (nodes m) v a \<and> nodes m' a = None)"
    by blast
  from r(2) assms(2) have "q = p" by blast
  with r(1) show ?thesis by blast
qed

text \<open>
  C4: on a valid list \<open>ll_remove\<close> returns NULL exactly when the list was empty or
  its only node held the value; and the returned head differs from the given one
  exactly when the head node held the value. In that case the head node is the one
  removed: it is freed.
\<close>

theorem remove_returned_head:
  assumes "islist (nodes m) p as"
  shows "\<exists>q m'. ll_remove m p v = Some (Inr (q, m')) \<and>
      ((q = None) = (p = None \<or> (\<exists>a. as = [a] \<and> holds (nodes m) v a))) \<and>
      ((q \<noteq> p) = (\<exists>a. p = Some a \<and> holds (nodes m) v a)) \<and>
      (\<forall>a. p = Some a \<and> holds (nodes m) v a \<longrightarrow> nodes m' a = None)"
proof (cases "\<exists>a. p = Some a \<and> holds (nodes m) v a")
  case True
  then obtain a where a: "p = Some a" "holds (nodes m) v a" by blast
  from assms a(1) have il: "islist (nodes m) (Some a) as" by simp
  then have hd: "\<exists>bs. as = a # bs" by (auto simp: islist_Some)
  let ?m' = "m\<lparr>nodes := (nodes m)(a := None)\<rparr>"
  from ll_remove_head_islist [OF il a(2)] obtain n where n0: "nodes m a = Some n" and n:
    "ll_remove m (Some a) v = Some (Inr (next n, ?m'))"
    "next n \<noteq> Some a" "(next n = None) = (as = [a])"
    by auto
  have 1: "ll_remove m p v = Some (Inr (next n, ?m'))" using n(1) a(1) by simp
  have 2: "(next n = None) = (p = None \<or> (\<exists>x. as = [x] \<and> holds (nodes m) v x))"
    using n(3) a hd by auto
  have 3: "(next n \<noteq> p) = (\<exists>x. p = Some x \<and> holds (nodes m) v x)"
    using n(2) a by auto
  have 4: "\<forall>x. p = Some x \<and> holds (nodes m) v x \<longrightarrow> nodes ?m' x = None"
    using a(1) by simp
  show ?thesis
    by (intro exI [of _ "next n"] exI [of _ ?m'] conjI 1 2 3 4)
next
  case False
  from ll_remove_keeps_head [OF assms False] obtain m' where
    1: "ll_remove m p v = Some (Inr (p, m'))" by blast
  have 2: "(p = None) = (p = None \<or> (\<exists>x. as = [x] \<and> holds (nodes m) v x))"
  proof -
    have "\<not> (\<exists>x. as = [x] \<and> holds (nodes m) v x)"
    proof
      assume "\<exists>x. as = [x] \<and> holds (nodes m) v x"
      then obtain x where x: "as = [x]" "holds (nodes m) v x" by blast
      with assms have "p = Some x" by simp
      with x(2) False show False by blast
    qed
    then show ?thesis by blast
  qed
  have 3: "(p \<noteq> p) = (\<exists>x. p = Some x \<and> holds (nodes m) v x)" using False by simp
  have 4: "\<forall>x. p = Some x \<and> holds (nodes m) v x \<longrightarrow> nodes m' x = None" using False by blast
  show ?thesis
    by (intro exI [of _ p] exI [of _ m'] conjI 1 2 3 4)
qed

theorem remove_returned_head_witness:
  "islist (nodes mem3) (Some 1) [1, 2, 5] \<and>
   (\<exists>m'. ll_remove mem3 (Some 1) 10 = Some (Inr (Some 2, m')) \<and> nodes m' 1 = None) \<and>
   islist (nodes (mem3\<lparr>nodes := [4 \<mapsto> \<lparr>data = 5, next = None\<rparr>]\<rparr>)) (Some 4) [4] \<and>
   (\<exists>m'. ll_remove (mem3\<lparr>nodes := [4 \<mapsto> \<lparr>data = 5, next = None\<rparr>]\<rparr>) (Some 4) 5 = Some (Inr (None, m')) \<and>
         nodes m' 4 = None)"
proof -
  let ?m1 = "mem3\<lparr>nodes := [4 \<mapsto> \<lparr>data = 5, next = None\<rparr>]\<rparr>"
  have h: "islist (nodes mem3) (Some 1) [1, 2, 5]" by (simp add: mem3_def)
  have h1: "islist (nodes ?m1) (Some 4) [4]" by simp
  have r: "ll_remove mem3 (Some 1) 10 =
      Some (Inr (Some 2, mem3\<lparr>nodes := (nodes mem3)(1 := None)\<rparr>))"
    by (simp add: ll_remove_def free_def mem3_def)
  have hv: "holds (nodes mem3) 10 1" "holds (nodes ?m1) 5 4"
    by (simp_all add: holds_def mem3_def)
  from remove_returned_head [OF h, of 10] r hv(1)
  have a: "\<exists>m'. ll_remove mem3 (Some 1) 10 = Some (Inr (Some 2, m')) \<and> nodes m' 1 = None"
    by auto
  from remove_returned_head [OF h1, of 5] hv(2)
  have b: "\<exists>m'. ll_remove ?m1 (Some 4) 5 = Some (Inr (None, m')) \<and> nodes m' 4 = None"
    by auto
  from h h1 a b show ?thesis by blast
qed

text \<open>
  C7: when \<open>v\<close> does not occur among the values of a valid list, \<open>ll_remove\<close> returns
  the given head and leaves every node as it was, so \<open>ll_toarray\<close> gives the same
  result after as before.
\<close>

theorem remove_absent_unchanged:
  assumes "islist (nodes m) p as" and "v \<notin> set (node_values (nodes m) as)"
  shows "\<exists>q m'. ll_remove m p v = Some (Inr (q, m')) \<and> q = p \<and> nodes m' = nodes m \<and>
      ll_toarray m' q = ll_toarray m p"
  using ll_remove_islist [OF assms(1), of v] assms(2) by auto

theorem remove_absent_unchanged_witness:
  "islist (nodes mem3) (Some 1) [1, 2, 5] \<and> 40 \<notin> set (node_values (nodes mem3) [1, 2, 5]) \<and>
   (\<exists>q m'. ll_remove mem3 (Some 1) 40 = Some (Inr (q, m')) \<and> q = Some 1 \<and> nodes m' = nodes mem3 \<and>
      ll_toarray m' q = ll_toarray mem3 (Some 1))"
proof -
  have h: "islist (nodes mem3) (Some 1) [1, 2, 5]" "40 \<notin> set (node_values (nodes mem3) [1, 2, 5])"
    by (simp_all add: mem3_def)
  from remove_absent_unchanged [OF h] h show ?thesis by blast
qed

text \<open>
  C10: on a valid list, the chain \<open>ll_remove\<close> leaves runs through the same addresses
  without the first one that held \<open>v\<close>, each remaining node keeps its value, and the
  sequence of values is the original one with the first occurrence of \<open>v\<close> deleted
  (the original one when \<open>v\<close> does not occur).
\<close>

theorem remove_values:
  assumes "islist (nodes m) p as"
  shows "\<exists>q m'. ll_remove m p v = Some (Inr (q, m')) \<and>
      islist (nodes m') q (del_first (nodes m) v as) \<and>
      node_values (nodes m') (del_first (nodes m) v as) = remove1 v (node_values (nodes m) as) \<and>
      (\<forall>x \<in> set (del_first (nodes m) v as). map_option data (nodes m' x) = map_option data (nodes m x)) \<and>
      (v \<notin> set (node_values (nodes m) as) \<longrightarrow>
         node_values (nodes m') (del_first (nodes m) v as) = node_values (nodes m) as)"
proof -
  from ll_remove_islist [OF assms, of v] obtain q m' bs where r:
    "ll_remove m p v = Some (Inr (q, m'))" "bs = del_first (nodes m) v as"
    "\<forall>x \<in> set bs. map_option data (nodes m' x) = map_option data (nodes m x)"
    "islist (nodes m') q bs"
    "node_values (nodes m') bs = remove1 v (node_values (nodes m) as)"
    by blast
  have "v \<notin> set (node_values (nodes m) as) \<longrightarrow> node_values (nodes m') bs = node_values (nodes m) as"
    using r(5) by (simp add: remove1_idem)
  with r show ?thesis by blast
qed

theorem remove_values_witness:
  "islist (nodes mem3) (Some 1) [1, 2, 5] \<and>
   (\<exists>q m'. ll_remove mem3 (Some 1) 20 = Some (Inr (q, m')) \<and> islist (nodes m') q [1, 5] \<and>
      node_values (nodes m') [1, 5] = [10, 30])"
proof -
  have h: "islist (nodes mem3) (Some 1) [1, 2, 5]" by (simp add: mem3_def)
  have d: "del_first (nodes mem3) 20 [1, 2, 5] = [1, 5]"
    "node_values (nodes mem3) [1, 2, 5] = [10, 20, 30]"
    by (simp_all add: mem3_def holds_def)
  from remove_values [OF h, of 20] h show ?thesis unfolding d by auto
qed

end
